theory Spec2Isabelle
  imports Main "HOL-Library.Extended_Nat"
begin

section \<open>The FAQ bot: a shallow embedding of faq_bot_plus.py\<close>

text \<open>
  Python strings are modelled as \<^typ>\<open>string\<close>, each \<^typ>\<open>char\<close> standing for the
  code point of the same number (0 to 255). Python integers are \<^typ>\<open>int\<close>. An
  exception of the source is a value \<open>Inl e\<close> of a sum type; state that the source
  mutates is passed in and returned.
\<close>

subsection \<open>Exceptions and list indexing\<close>

datatype py_error = IndexError | KeyError | PatternError | FileNotFoundError

text \<open>
  \<open>xs[i]\<close> of Python: an index below zero counts from the end of the list, and an index
  outside \<open>-len(xs) .. len(xs) - 1\<close> raises IndexError.
\<close>

definition py_index :: "'a list \<Rightarrow> int \<Rightarrow> py_error + 'a" where
  "py_index xs i =
     (if 0 \<le> i \<and> i < int (length xs) then Inr (xs ! nat i)
      else if i < 0 \<and> - int (length xs) \<le> i then Inr (xs ! nat (int (length xs) + i))
      else Inl IndexError)"

subsection \<open>The fuzzy intent matcher: understand\<close>

text \<open>
  \<open>re.search(regex, utterance, flags=re.IGNORECASE)\<close> belongs to the third-party module
  \<open>regex\<close>, so it is a parameter of the model. It raises on a pattern that does not
  compile (\<open>Inl\<close>), returns None when the pattern does not match (\<open>Inr None\<close>), and
  otherwise a match object, of which the source reads only \<open>fuzzy_counts\<close>: the numbers
  of substitutions, insertions and deletions.
\<close>

type_synonym fuzzy_counts = "nat \<times> nat \<times> nat"

type_synonym searcher = "string \<Rightarrow> string \<Rightarrow> py_error + fuzzy_counts option"

text \<open>\<open>sum(match.fuzzy_counts)\<close>.\<close>

definition total_errors :: "fuzzy_counts \<Rightarrow> nat" where
  "total_errors c = (case c of (s, i, d) \<Rightarrow> s + i + d)"

text \<open>
  The body of the \<open>for idx, regex in enumerate(regex_list)\<close> loop, with the two local
  variables \<open>best_match_idx\<close> and \<open>best_match_errors\<close> as arguments. The latter starts
  at \<open>float('inf')\<close>, which is \<open>\<infinity>\<close> of \<^typ>\<open>enat\<close>. An exception of \<open>re.search\<close> leaves
  the loop.
\<close>

fun understand_loop ::
  "searcher \<Rightarrow> string \<Rightarrow> (nat \<times> string) list \<Rightarrow> int \<Rightarrow> enat \<Rightarrow> py_error + int" where
  "understand_loop search utterance [] best_match_idx best_match_errors = Inr best_match_idx"
| "understand_loop search utterance ((idx, regex) # rest) best_match_idx best_match_errors =
     (case search regex utterance of
        Inl e \<Rightarrow> Inl e
      | Inr None \<Rightarrow> understand_loop search utterance rest best_match_idx best_match_errors
      | Inr (Some counts) \<Rightarrow>
          if enat (total_errors counts) < best_match_errors
          then understand_loop search utterance rest (int idx) (enat (total_errors counts))
          else understand_loop search utterance rest best_match_idx best_match_errors)"

text \<open>
  The number of errors with which a pattern matches an utterance, None when it does not
  match (or does not compile).
\<close>

definition match_errors :: "searcher \<Rightarrow> string \<Rightarrow> string \<Rightarrow> nat option" where
  "match_errors search utterance regex =
     (case search regex utterance of
        Inr (Some counts) \<Rightarrow> Some (total_errors counts)
      | _ \<Rightarrow> None)"

text \<open>
  Two predicates for the loop's invariant: no pattern of the list matches with fewer than
  \<open>e\<close> errors; and the pattern at index \<open>i\<close> matches with \<open>k\<close> errors, no pattern of
  the list matches with fewer, and none before \<open>i\<close> matches with as few.
\<close>

definition no_better :: "searcher \<Rightarrow> string \<Rightarrow> string list \<Rightarrow> enat \<Rightarrow> bool" where
  "no_better search u xs e =
     (\<forall>j<length xs. \<forall>k. match_errors search u (xs ! j) = Some k \<longrightarrow> e \<le> enat k)"

definition best_at :: "searcher \<Rightarrow> string \<Rightarrow> string list \<Rightarrow> nat \<Rightarrow> nat \<Rightarrow> bool" where
  "best_at search u xs i k =
     (i < length xs \<and> match_errors search u (xs ! i) = Some k \<and>
      (\<forall>j<length xs. \<forall>k'. match_errors search u (xs ! j) = Some k' \<longrightarrow>
          k \<le> k' \<and> (k = k' \<longrightarrow> i \<le> j)))"

definition understand :: "searcher \<Rightarrow> string \<Rightarrow> string list \<Rightarrow> py_error + int" where
  "understand search utterance regex_list =
     understand_loop search utterance (List.enumerate 0 regex_list) (- 1) \<infinity>"


subsection \<open>Characters and the string methods the source calls\<close>

text \<open>
  \<open>string.punctuation\<close>, the 32 punctuation characters of ASCII. The double quote, the
  quote, the backslash and the backquote are written by their codes.
\<close>

definition punctuation :: string where
  "punctuation =
     ''!'' @ [CHR 0x22] @ ''#$%&'' @ [CHR 0x27] @ ''()*+,-./:;<=>?@['' @ [CHR 0x5C] @
     '']^_'' @ [CHR 0x60] @ ''{|}~''"


text \<open>
  \<open>str.isspace\<close> on one character: the code points below 256 that Python counts as
  whitespace are 9 to 13, 28 to 32, 133 and 160.
\<close>

definition isspace :: "char \<Rightarrow> bool" where
  "isspace c =
     (let n = (of_char c :: nat)
      in (9 \<le> n \<and> n \<le> 13) \<or> (28 \<le> n \<and> n \<le> 32) \<or> n = 133 \<or> n = 160)"

text \<open>
  \<open>str.isupper\<close> on one character: the capital letters A to Z and, above ASCII, the
  code points 192 to 222 but for the multiplication sign 215.
\<close>

definition isupper :: "char \<Rightarrow> bool" where
  "isupper c =
     (let n = (of_char c :: nat)
      in (65 \<le> n \<and> n \<le> 90) \<or> (192 \<le> n \<and> n \<le> 222 \<and> n \<noteq> 215))"

text \<open>\<open>str.lower\<close>: a capital letter goes to the letter 32 code points above it.\<close>

definition lower_char :: "char \<Rightarrow> char" where
  "lower_char c = (if isupper c then char_of (of_char c + (32 :: nat)) else c)"

definition str_lower :: "string \<Rightarrow> string" where
  "str_lower s = map lower_char s"

text \<open>
  \<open>text.translate(str.maketrans('', '', deleted))\<close>: every character of \<open>deleted\<close> is
  removed from the text.
\<close>

definition str_translate_delete :: "string \<Rightarrow> string \<Rightarrow> string" where
  "str_translate_delete deleted s = filter (\<lambda>c. c \<notin> set deleted) s"

text \<open>
  \<open>str.split()\<close> with no separator: skip whitespace, take the characters up to the next
  whitespace as a word, and go on; no word is empty.
\<close>

function str_split :: "string \<Rightarrow> string list" where
  "str_split s =
     (case dropWhile isspace s of
        [] \<Rightarrow> []
      | c # cs \<Rightarrow>
          (c # takeWhile (\<lambda>d. \<not> isspace d) cs) # str_split (dropWhile (\<lambda>d. \<not> isspace d) cs))"
  by pat_completeness auto
termination
proof (relation "measure length")
  show "wf (measure length)" by simp
next
  fix s :: string and c cs
  assume "dropWhile isspace s = c # cs"
  then have "length (c # cs) \<le> length s"
    by (metis length_dropWhile_le)
  moreover have "length (dropWhile (\<lambda>d. \<not> isspace d) cs) \<le> length cs"
    by (rule length_dropWhile_le)
  ultimately show "(dropWhile (\<lambda>d. \<not> isspace d) cs, s) \<in> measure length" by simp
qed

declare str_split.simps [simp del]

text \<open>\<open>sep.join(words)\<close>.\<close>

fun str_join :: "string \<Rightarrow> string list \<Rightarrow> string" where
  "str_join sep [] = []"
| "str_join sep [w] = w"
| "str_join sep (w # v # ws) = w @ sep @ str_join sep (v # ws)"

text \<open>\<open>str.strip()\<close>: the whitespace at both ends is removed.\<close>

definition str_strip :: "string \<Rightarrow> string" where
  "str_strip s = rev (dropWhile isspace (rev (dropWhile isspace s)))"

subsection \<open>The sanitizer: sanitize_text\<close>

definition sanitize_text :: "string \<Rightarrow> string" where
  "sanitize_text text =
     (let text1 = str_translate_delete punctuation text;
          text2 = str_join '' '' (str_split text1)
      in str_lower text2)"

text \<open>
  A word has a character and no whitespace; a plain text has no punctuation and no
  capital letter.
\<close>

definition word :: "string \<Rightarrow> bool" where
  "word w = (w \<noteq> [] \<and> (\<forall>c\<in>set w. \<not> isspace c))"

definition plain :: "string \<Rightarrow> bool" where
  "plain w = (\<forall>c\<in>set w. c \<notin> set punctuation \<and> \<not> isupper c)"


definition trimmed :: "string \<Rightarrow> bool" where
  "trimmed s = (s = [] \<or> (\<not> isspace (hd s) \<and> \<not> isspace (last s)))"

subsection \<open>The knowledge base loaders\<close>

text \<open>
  The files are a map from a path to the characters stored. \<open>open(path, 'r')\<close> raises
  when the path is missing, and in text mode reads \<open>\r\n\<close> and \<open>\r\<close> as \<open>\n\<close>.
\<close>

type_synonym files = "string \<rightharpoonup> string"

abbreviation LF :: char where "LF \<equiv> CHR 0x0A"

abbreviation CR :: char where "CR \<equiv> CHR 0x0D"

fun universal_newlines :: "string \<Rightarrow> string" where
  "universal_newlines [] = []"
| "universal_newlines [c] = (if c = CR then [LF] else [c])"
| "universal_newlines (c # d # cs) =
     (if c = CR \<and> d = LF then LF # universal_newlines cs
      else if c = CR then LF # universal_newlines (d # cs)
      else c # universal_newlines (d # cs))"

definition open_read :: "files \<Rightarrow> string \<Rightarrow> py_error + string" where
  "open_read fs path =
     (case fs path of None \<Rightarrow> Inl FileNotFoundError | Some raw \<Rightarrow> Inr (universal_newlines raw))"

text \<open>
  \<open>file.readlines()\<close>: the text cut after every \<open>\n\<close>, each line keeping its \<open>\n\<close>; the
  first argument is the line read so far.
\<close>

fun readlines_from :: "string \<Rightarrow> string \<Rightarrow> string list" where
  "readlines_from line [] = (if line = [] then [] else [line])"
| "readlines_from line (c # cs) =
     (if c = LF then (line @ [c]) # readlines_from [] cs else readlines_from (line @ [c]) cs)"

definition readlines :: "string \<Rightarrow> string list" where
  "readlines text = readlines_from [] text"

definition load_FAQ_data :: "files \<Rightarrow> py_error + (string list \<times> string list)" where
  "load_FAQ_data fs =
     (case open_read fs ''questions.txt'' of
        Inl e \<Rightarrow> Inl e
      | Inr q_file \<Rightarrow>
          (let questions = map str_strip (readlines q_file)
           in case open_read fs ''answers.txt'' of
                Inl e \<Rightarrow> Inl e
              | Inr a_file \<Rightarrow>
                  (let answers = map str_strip (readlines a_file)
                   in Inr (questions, answers))))"

definition load_fuzzy_regex_patterns :: "files \<Rightarrow> py_error + string list" where
  "load_fuzzy_regex_patterns fs =
     (case open_read fs ''regex.txt'' of
        Inl e \<Rightarrow> Inl e
      | Inr r_file \<Rightarrow> Inr (map str_strip (readlines r_file)))"

text \<open>
  What one entry for each line of a text means: an entry is its line without the
  whitespace at both ends; the lines are the text cut after every \<open>\n\<close>, in the order
  of the text, so each line but the last ends with \<open>\n\<close> and none is empty.
\<close>

definition stripped :: "string \<Rightarrow> string \<Rightarrow> bool" where
  "stripped line entry =
     (\<exists>pre post. line = pre @ entry @ post \<and> (\<forall>c\<in>set pre. isspace c) \<and>
        (\<forall>c\<in>set post. isspace c) \<and> trimmed entry)"

definition one_entry_per_line :: "string \<Rightarrow> string list \<Rightarrow> bool" where
  "one_entry_per_line text entries =
     (\<exists>lines. concat lines = text \<and>
        (\<forall>l\<in>set lines. l \<noteq> [] \<and> LF \<notin> set (butlast l)) \<and>
        (\<forall>l\<in>set (butlast lines). last l = LF) \<and>
        length entries = length lines \<and>
        (\<forall>i<length lines. stripped (lines ! i) (entries ! i)))"

subsection \<open>ResponseManager\<close>

text \<open>
  \<open>self.last_response\<close>, a dict from the entity label to the index of the next response.
\<close>

type_synonym last_response = "string \<rightharpoonup> int"

text \<open>
  The dict \<open>responses\<close> of get_response, its four keys in the order of the source. The
  apostrophe of the first OTHER response is U+2019 in the source, written here as its
  three bytes in UTF-8.
\<close>

definition responses :: "string \<Rightarrow> (string \<times> string list) list" where
  "responses entity_text =
     [(''CHARACTER'',
        [''What would you like to know about '' @ entity_text @ ''?'',
         ''I'' @ [CHR 0x27] @ ''m not quite sure about '' @ entity_text @
           ''. Can you ask about another character or a different topic?'']),
      (''PLACE'',
        [''What would you like to know about the place called '' @ entity_text @ ''?'',
         ''The place called '' @ entity_text @
           '' is beyond my current knowledge. What else can I assist with?'']),
      (''EVENT'',
        [''What details are you interested in about the event known as '' @ entity_text @ ''?'',
         ''I have limited information on the event called '' @ entity_text @
           ''. Perhaps inquire about a different event?'']),
      (''OTHER'',
        [''Sorry, I don'' @ [CHR 0xE2, CHR 0x80, CHR 0x99] @ ''t have information on '' @
           entity_text @ ''.'',
         ''My knowledge about '' @ entity_text @
           '' is limited. Feel free to ask another question.''])]"

text \<open>
  \<open>responses.get(entity_label, responses["OTHER"])\<close>: the default is looked up first,
  as Python evaluates the arguments of a call before the call.
\<close>

definition responses_get :: "string \<Rightarrow> string \<Rightarrow> py_error + string list" where
  "responses_get entity_label entity_text =
     (case map_of (responses entity_text) ''OTHER'' of
        None \<Rightarrow> Inl KeyError
      | Some other \<Rightarrow>
          (case map_of (responses entity_text) entity_label of
             None \<Rightarrow> Inr other
           | Some variants \<Rightarrow> Inr variants))"

text \<open>
  get_response returns the response, or the exception raised, and the dict as the call
  leaves it: an exception is raised before the assignment to the dict.
\<close>

definition get_response ::
  "last_response \<Rightarrow> string \<Rightarrow> string \<Rightarrow> (py_error + string) \<times> last_response" where
  "get_response last_response entity_label entity_text =
     (let response_index = (case last_response entity_label of None \<Rightarrow> 0 | Some i \<Rightarrow> i)
      in case responses_get entity_label entity_text of
           Inl e \<Rightarrow> (Inl e, last_response)
         | Inr variants \<Rightarrow>
             (case py_index variants response_index of
                Inl e \<Rightarrow> (Inl e, last_response)
              | Inr response \<Rightarrow>
                  (Inr response, last_response(entity_label \<mapsto> (response_index + 1) mod 2))))"

text \<open>\<open>self.last_response.get(entity_label, 0)\<close>.\<close>

definition next_index :: "last_response \<Rightarrow> string \<Rightarrow> int" where
  "next_index st l = (case st l of None \<Rightarrow> 0 | Some i \<Rightarrow> i)"

text \<open>
  A run of calls of get_response, each with its label and text, on the dict the call
  before left; the results in the order of the calls.
\<close>

fun get_responses ::
  "last_response \<Rightarrow> (string \<times> string) list \<Rightarrow> (py_error + string) list" where
  "get_responses last_response [] = []"
| "get_responses last_response ((entity_label, entity_text) # calls) =
     (case get_response last_response entity_label entity_text of
        (result, last_response') \<Rightarrow> result # get_responses last_response' calls)"

text \<open>Every index the dict holds is 0 or 1, as in every dict the program reaches.\<close>

definition alternation_ok :: "last_response \<Rightarrow> bool" where
  "alternation_ok last_response =
     (\<forall>entity_label i. last_response entity_label = Some i \<longrightarrow> i = 0 \<or> i = 1)"

subsection \<open>The entity fallback analyzer: analyze_utterance\<close>

text \<open>
  spaCy is a third-party library, so what the source calls of it are the fields of a
  record: the pipeline \<open>nlp\<close>; the \<open>matcher\<close>, which returns the triples (match_id,
  start, end); \<open>nlp.vocab.strings[match_id]\<close>; the text of the span \<open>doc[start:end]\<close>;
  and \<open>doc.ents\<close> as pairs (\<open>ent.label_\<close>, \<open>ent.text\<close>).
\<close>

record 'doc spacy =
  nlp :: "string \<Rightarrow> 'doc"
  matcher :: "'doc \<Rightarrow> (nat \<times> nat \<times> nat) list"
  vocab_strings :: "nat \<Rightarrow> string"
  span_text :: "'doc \<Rightarrow> nat \<Rightarrow> nat \<Rightarrow> string"
  ents :: "'doc \<Rightarrow> (string \<times> string) list"

text \<open>
  The loop over \<open>doc.ents\<close>: the text of the first entity whose label is PERSON, GPE,
  LOC or ORG.
\<close>

fun first_named_entity :: "(string \<times> string) list \<Rightarrow> string option" where
  "first_named_entity [] = None"
| "first_named_entity ((label, text) # rest) =
     (if label \<in> set [''PERSON'', ''GPE'', ''LOC'', ''ORG''] then Some text
      else first_named_entity rest)"

definition default_response :: string where
  "default_response = ''Can you please rephrase your question or ask about something else?''"

definition analyze_utterance ::
  "'doc spacy \<Rightarrow> last_response \<Rightarrow> string \<Rightarrow> (py_error + string) \<times> last_response" where
  "analyze_utterance sp last_response utterance =
     (let doc = nlp sp utterance
      in case matcher sp doc of
           (match_id, start, stop) # _ \<Rightarrow>
             get_response last_response (vocab_strings sp match_id) (span_text sp doc start stop)
         | [] \<Rightarrow>
             (case first_named_entity (ents sp doc) of
                Some text \<Rightarrow> get_response last_response ''OTHER'' text
              | None \<Rightarrow> (Inr default_response, last_response)))"

subsection \<open>The response generator: generate\<close>

definition generate ::
  "'doc spacy \<Rightarrow> last_response \<Rightarrow> int \<Rightarrow> string list \<Rightarrow> string list \<Rightarrow> string \<Rightarrow>
   (py_error + string) \<times> last_response" where
  "generate sp last_response intent questions answers utterance =
     (if intent = - 1 then analyze_utterance sp last_response utterance
      else (py_index answers intent, last_response))"

text \<open>
  The two lines of main (and of on_message) that answer an utterance:
  \<open>intent = understand(utterance, regex_list)\<close> and then
  \<open>generate(intent, questions, responses, utterance)\<close>.
\<close>

definition understand_then_generate ::
  "searcher \<Rightarrow> 'doc spacy \<Rightarrow> last_response \<Rightarrow> string list \<Rightarrow> string list \<Rightarrow> string list \<Rightarrow>
   string \<Rightarrow> (py_error + string) \<times> last_response" where
  "understand_then_generate search sp last_response regex_list questions answers utterance =
     (case understand search utterance regex_list of
        Inl e \<Rightarrow> (Inl e, last_response)
      | Inr intent \<Rightarrow> generate sp last_response intent questions answers utterance)"

section \<open>Properties of understand\<close>

lemma no_better_Cons:
  "no_better search u (x # xs) e =
     ((\<forall>k. match_errors search u x = Some k \<longrightarrow> e \<le> enat k) \<and> no_better search u xs e)"
  by (simp add: no_better_def All_less_Suc2)

lemma best_at_Cons_Suc:
  "best_at search u (x # xs) (Suc i) k =
     (best_at search u xs i k \<and> (\<forall>k'. match_errors search u x = Some k' \<longrightarrow> k < k'))"
proof -
  have "(\<forall>k'. match_errors search u x = Some k' \<longrightarrow> k \<le> k' \<and> k \<noteq> k')
      = (\<forall>k'. match_errors search u x = Some k' \<longrightarrow> k < k')"
    by (simp add: less_le)
  then show ?thesis
    by (simp add: best_at_def All_less_Suc2 conj_ac)
qed

lemma best_at_Cons_0:
  "best_at search u (x # xs) 0 k =
     (match_errors search u x = Some k \<and> no_better search u xs (enat k))"
  by (auto simp: best_at_def no_better_def All_less_Suc2)

lemma understand_loop_Cons:
  "understand_loop search u ((idx, p) # rest) b e =
     (case search p u of
        Inl err \<Rightarrow> Inl err
      | Inr m \<Rightarrow>
         (case match_errors search u p of
            None \<Rightarrow> understand_loop search u rest b e
          | Some k \<Rightarrow> if enat k < e then understand_loop search u rest (int idx) (enat k)
                      else understand_loop search u rest b e))"
  by (simp add: match_errors_def split: sum.splits option.splits)

lemma understand_loop_result:
  "understand_loop search u (List.enumerate n xs) b e = Inr r \<Longrightarrow>
   (r = b \<and> no_better search u xs e)
   \<or> (\<exists>i k. r = int (n + i) \<and> enat k < e \<and> best_at search u xs i k)"
proof (induction xs arbitrary: n b e)
  case Nil
  then show ?case by (simp add: no_better_def)
next
  case (Cons x xs)
  show ?case
  proof (cases "search x u")
    case (Inl err)
    with Cons.prems show ?thesis by (simp add: understand_loop_Cons del: understand_loop.simps)
  next
    case (Inr m)
    show ?thesis
    proof (cases "match_errors search u x")
      case None
      with Inr Cons.prems
      have "understand_loop search u (List.enumerate (Suc n) xs) b e = Inr r"
        by (simp add: understand_loop_Cons del: understand_loop.simps)
      from Cons.IH [OF this] show ?thesis
      proof (elim disjE exE conjE)
        assume "r = b" "no_better search u xs e"
        with None show ?thesis by (simp add: no_better_Cons)
      next
        fix i k assume "r = int (Suc n + i)" "enat k < e" "best_at search u xs i k"
        with None have "r = int (n + Suc i) \<and> enat k < e \<and> best_at search u (x # xs) (Suc i) k"
          by (simp add: best_at_Cons_Suc)
        then show ?thesis by blast
      qed
    next
      case (Some k0)
      show ?thesis
      proof (cases "enat k0 < e")
        case True
        with Inr Some Cons.prems
        have "understand_loop search u (List.enumerate (Suc n) xs) (int n) (enat k0) = Inr r"
          by (simp add: understand_loop_Cons del: understand_loop.simps)
        from Cons.IH [OF this] show ?thesis
        proof (elim disjE exE conjE)
          assume "r = int n" "no_better search u xs (enat k0)"
          with Some True have "r = int (n + 0) \<and> enat k0 < e \<and> best_at search u (x # xs) 0 k0"
            by (simp add: best_at_Cons_0)
          then show ?thesis by blast
        next
          fix i k assume h: "r = int (Suc n + i)" "enat k < enat k0" "best_at search u xs i k"
          from h(2) True have "enat k < e" by (rule less_trans)
          with h Some have "r = int (n + Suc i) \<and> enat k < e \<and> best_at search u (x # xs) (Suc i) k"
            by (simp add: best_at_Cons_Suc)
          then show ?thesis by blast
        qed
      next
        case False
        then have ge: "e \<le> enat k0" by (simp add: not_less)
        from False Inr Some Cons.prems
        have "understand_loop search u (List.enumerate (Suc n) xs) b e = Inr r"
          by (simp add: understand_loop_Cons del: understand_loop.simps)
        from Cons.IH [OF this] show ?thesis
        proof (elim disjE exE conjE)
          assume "r = b" "no_better search u xs e"
          with Some ge show ?thesis by (simp add: no_better_Cons)
        next
          fix i k assume h: "r = int (Suc n + i)" "enat k < e" "best_at search u xs i k"
          from h(2) ge have "enat k < enat k0" by (rule less_le_trans)
          with h Some have "r = int (n + Suc i) \<and> enat k < e \<and> best_at search u (x # xs) (Suc i) k"
            by (simp add: best_at_Cons_Suc)
          then show ?thesis by blast
        qed
      qed
    qed
  qed
qed

lemma understand_loop_total:
  "\<forall>p\<in>set xs. \<exists>m. search p u = Inr m \<Longrightarrow>
   \<exists>r. understand_loop search u (List.enumerate n xs) b e = Inr r"
proof (induction xs arbitrary: n b e)
  case Nil
  then show ?case by simp
next
  case (Cons x xs)
  then obtain m where m: "search x u = Inr m" by auto
  from Cons have "\<And>n b e. \<exists>r. understand_loop search u (List.enumerate n xs) b e = Inr r"
    by simp
  with m show ?case by (simp split: option.splits)
qed


text \<open>
  C10: a result of understand is -1 or an index into the pattern list it was given.
\<close>

theorem understand_valid_index:
  "understand search utterance regex_list = Inr r \<Longrightarrow>
   r = - 1 \<or> (0 \<le> r \<and> r < int (length regex_list))"
  unfolding understand_def
  by (drule understand_loop_result) (auto simp: best_at_def)

theorem understand_valid_index_witness:
  "understand (\<lambda>p u. if p = ''?'' then Inr None else Inr (Some (length p, 0, 0))) ''hi''
     [''abc'', ''?'', ''ab'', ''cd''] = Inr 2 \<and> (0 :: int) \<le> 2 \<and> (2 :: int) < int (length [''abc'', ''?'', ''ab'', ''cd''])"
proof -
  have run: "understand (\<lambda>p u. if p = ''?'' then Inr None else Inr (Some (length p, 0, 0))) ''hi''
     [''abc'', ''?'', ''ab'', ''cd''] = Inr 2"
    by (simp add: understand_def total_errors_def)
  from understand_valid_index [OF run] run show ?thesis by simp
qed

text \<open>
  C1: when every pattern of the list compiles, understand returns; it returns -1 when no
  pattern matches (so for the empty list); otherwise it returns the index of a pattern that
  matches, no pattern matches with fewer errors in total, and among the patterns that match
  with as few errors it is the first.
\<close>

theorem understand_minimal_earliest:
  assumes compiles: "\<forall>p\<in>set regex_list. \<exists>m. search p utterance = Inr m"
  shows "\<exists>r. understand search utterance regex_list = Inr r \<and>
    (if \<forall>i<length regex_list. match_errors search utterance (regex_list ! i) = None
     then r = - 1
     else \<exists>i k. r = int i \<and> i < length regex_list \<and>
            match_errors search utterance (regex_list ! i) = Some k \<and>
            (\<forall>j<length regex_list. \<forall>k'.
               match_errors search utterance (regex_list ! j) = Some k' \<longrightarrow>
               k \<le> k' \<and> (k = k' \<longrightarrow> i \<le> j)))"
proof -
  from understand_loop_total [of regex_list search utterance 0 "- 1" \<infinity>] compiles
  obtain r where r: "understand search utterance regex_list = Inr r"
    unfolding understand_def by blast
  then have run: "understand_loop search utterance (List.enumerate 0 regex_list) (- 1) \<infinity> = Inr r"
    by (simp add: understand_def)
  from understand_loop_result [OF run]
  have "(if \<forall>i<length regex_list. match_errors search utterance (regex_list ! i) = None
     then r = - 1
     else \<exists>i k. r = int i \<and> i < length regex_list \<and>
            match_errors search utterance (regex_list ! i) = Some k \<and>
            (\<forall>j<length regex_list. \<forall>k'.
               match_errors search utterance (regex_list ! j) = Some k' \<longrightarrow>
               k \<le> k' \<and> (k = k' \<longrightarrow> i \<le> j)))"
  proof (elim disjE exE conjE)
    assume "r = - 1" and nb: "no_better search utterance regex_list \<infinity>"
    have "\<forall>i<length regex_list. match_errors search utterance (regex_list ! i) = None"
    proof (intro allI impI)
      fix i assume "i < length regex_list"
      with nb have "\<forall>k. match_errors search utterance (regex_list ! i) \<noteq> Some k"
        by (auto simp: no_better_def)
      then show "match_errors search utterance (regex_list ! i) = None" by simp
    qed
    with \<open>r = - 1\<close> show ?thesis by simp
  next
    fix i k assume "r = int (0 + i)" and b: "best_at search utterance regex_list i k"
    then have "r = int i" by simp
    moreover from b have "\<not> (\<forall>i<length regex_list. match_errors search utterance (regex_list ! i) = None)"
      by (auto simp: best_at_def)
    ultimately show ?thesis using b unfolding best_at_def by auto
  qed
  with r show ?thesis by blast
qed

theorem understand_minimal_earliest_witness:
  "understand (\<lambda>p u. if p = ''?'' then Inr None else Inr (Some (length p, 0, 0))) ''hi''
     [''abc'', ''?'', ''ab'', ''cd''] = Inr 2 \<and>
   match_errors (\<lambda>p u. if p = ''?'' then Inr None else Inr (Some (length p, 0, 0))) ''hi''
     ([''abc'', ''?'', ''ab'', ''cd''] ! 3) = Some 2"
  using understand_minimal_earliest
    [of "[''abc'', ''?'', ''ab'', ''cd'']"
        "\<lambda>p u. if p = ''?'' then Inr None else Inr (Some (length p, 0, 0))" "''hi''"]
  by (simp add: understand_def match_errors_def total_errors_def)

section \<open>Properties of ResponseManager, analyze_utterance and generate\<close>

lemma responses_get_two:
  "\<exists>v0 v1. responses_get entity_label entity_text = Inr [v0, v1] \<and> v0 \<noteq> v1"
  by (simp add: responses_get_def responses_def)

lemma get_response_state_other:
  "l' \<noteq> l \<Longrightarrow> snd (get_response st l t) l' = st l'"
  by (simp add: get_response_def Let_def split: sum.splits)

lemma get_response_next_other:
  "l' \<noteq> l \<Longrightarrow> next_index (snd (get_response st l t)) l' = next_index st l'"
  by (simp add: next_index_def get_response_state_other)

lemma get_response_hit:
  assumes "responses_get l t = Inr [v0, v1]" and "next_index st l = 0 \<or> next_index st l = 1"
  shows "get_response st l t =
           (Inr ([v0, v1] ! nat (next_index st l)), st(l \<mapsto> (next_index st l + 1) mod 2))"
  using assms by (auto simp: get_response_def next_index_def py_index_def)


lemma get_response_next_same:
  assumes "next_index st l = 0 \<or> next_index st l = 1"
  shows "next_index (snd (get_response st l t)) l = (next_index st l + 1) mod 2"
proof -
  obtain v0 v1 where "responses_get l t = Inr [v0, v1]"
    using responses_get_two by blast
  from get_response_hit [OF this assms] show ?thesis
    by (simp add: next_index_def)
qed

lemma get_responses_nth:
  assumes "next_index st l = b" and "b = 0 \<or> b = 1"
    and "i < length calls" and "fst (calls ! i) = l"
  shows "\<exists>v0 v1. responses_get l (snd (calls ! i)) = Inr [v0, v1] \<and> v0 \<noteq> v1 \<and>
           get_responses st calls ! i =
             Inr ([v0, v1] ! ((nat b + length (filter (\<lambda>c. fst c = l) (take i calls))) mod 2))"
  using assms
proof (induction calls arbitrary: st i b)
  case Nil
  then show ?case by simp
next
  case (Cons call calls)
  obtain l0 t0 where call: "call = (l0, t0)" by (cases call)
  obtain res st' where step: "get_response st l0 t0 = (res, st')" by (cases "get_response st l0 t0")
  show ?case
  proof (cases i)
    case 0
    with Cons.prems call have l0: "l0 = l" by simp
    obtain v0 v1 where v: "responses_get l t0 = Inr [v0, v1]" "v0 \<noteq> v1"
      using responses_get_two by blast
    from Cons.prems have ok: "next_index st l = 0 \<or> next_index st l = 1" by simp
    from get_response_hit [OF v(1) ok] step l0 Cons.prems(1)
    have "res = Inr ([v0, v1] ! nat b)" by simp
    moreover from Cons.prems(2) have "nat b mod 2 = nat b" by auto
    ultimately show ?thesis using v 0 call step l0 by simp
  next
    case (Suc j)
    with Cons.prems have j: "j < length calls" "fst (calls ! j) = l" by simp_all
    show ?thesis
    proof (cases "l0 = l")
      case True
      from Cons.prems have ok: "next_index st l = 0 \<or> next_index st l = 1" by simp
      from get_response_next_same [OF ok, of t0] step True Cons.prems(1)
      have nxt: "next_index st' l = (b + 1) mod 2" by simp
      from Cons.prems(2) have b': "(b + 1) mod 2 = 0 \<or> (b + 1) mod 2 = 1" by auto
      from Cons.IH [OF nxt b' j]
      obtain v0 v1 where v: "responses_get l (snd (calls ! j)) = Inr [v0, v1]" "v0 \<noteq> v1"
        "get_responses st' calls ! j =
           Inr ([v0, v1] ! ((nat ((b + 1) mod 2) + length (filter (\<lambda>c. fst c = l) (take j calls))) mod 2))"
        by blast
      have arith: "\<And>n :: nat. (nat ((b + 1) mod 2) + n) mod 2 = (nat b + Suc n) mod 2"
      proof -
        fix n :: nat
        from Cons.prems(2) show "(nat ((b + 1) mod 2) + n) mod 2 = (nat b + Suc n) mod 2"
        proof
          assume "b = 0" then show ?thesis by simp
        next
          assume "b = 1" then show ?thesis by simp
        qed
      qed
      have "(nat ((b + 1) mod 2) + length (filter (\<lambda>c. fst c = l) (take j calls))) mod 2
          = (nat b + Suc (length (filter (\<lambda>c. fst c = l) (take j calls)))) mod 2"
        by (rule arith)
      with v show ?thesis using Suc call step True by simp
    next
      case False
      from get_response_next_other [of l l0 st t0] False step Cons.prems(1)
      have nxt: "next_index st' l = b" by simp
      from Cons.IH [OF nxt Cons.prems(2) j]
      obtain v0 v1 where v: "responses_get l (snd (calls ! j)) = Inr [v0, v1]" "v0 \<noteq> v1"
        "get_responses st' calls ! j =
           Inr ([v0, v1] ! ((nat b + length (filter (\<lambda>c. fst c = l) (take j calls))) mod 2))"
        by blast
      then show ?thesis using Suc call step False by simp
    qed
  qed
qed

text \<open>
  C2: in a run of calls of get_response that starts with no entry for a label, the call
  number \<open>n\<close> with that label (counted from 0, whatever the calls with other labels in
  between and whatever the texts) returns the first of the label's two response variants
  when \<open>n\<close> is even and the second when \<open>n\<close> is odd; the two variants differ.
\<close>

theorem get_response_alternates:
  assumes "last_response entity_label = None"
    and "i < length calls" and "fst (calls ! i) = entity_label"
  shows "\<exists>variant0 variant1.
           responses_get entity_label (snd (calls ! i)) = Inr [variant0, variant1] \<and>
           variant0 \<noteq> variant1 \<and>
           get_responses last_response calls ! i =
             Inr ([variant0, variant1] !
                    (length (filter (\<lambda>call. fst call = entity_label) (take i calls)) mod 2))"
proof -
  from assms(1) have "next_index last_response entity_label = 0" by (simp add: next_index_def)
  from get_responses_nth [OF this _ assms(2,3)] show ?thesis by simp
qed

text \<open>
  C9: a call of get_response with one label leaves the entry of every other label as it
  was, present or absent.
\<close>

theorem get_response_frame:
  "other_label \<noteq> entity_label \<Longrightarrow>
   snd (get_response last_response entity_label entity_text) other_label = last_response other_label"
  by (rule get_response_state_other)


theorem get_response_alternates_witness:
  "get_responses Map.empty
     [(''CHARACTER'', ''Adam''), (''PLACE'', ''Eden''), (''CHARACTER'', ''Noah''),
      (''CHARACTER'', ''Eve'')] ! 2
   = Inr (''I'' @ [CHR 0x27] @ ''m not quite sure about Noah'' @
          ''. Can you ask about another character or a different topic?'')"
  using get_response_alternates
    [of Map.empty "''CHARACTER''" 2
        "[(''CHARACTER'', ''Adam''), (''PLACE'', ''Eden''), (''CHARACTER'', ''Noah''),
          (''CHARACTER'', ''Eve'')]"]
  by (simp add: get_response_def responses_get_def responses_def py_index_def)

theorem get_response_frame_witness:
  "''PLACE'' \<noteq> ''CHARACTER'' \<and>
   snd (get_response [''PLACE'' \<mapsto> 1] ''CHARACTER'' ''Adam'') ''PLACE'' = Some 1"
  using get_response_frame [of "''PLACE''" "''CHARACTER''" "[''PLACE'' \<mapsto> 1]" "''Adam''"]
  by simp

lemma first_named_entity_None:
  "(first_named_entity es = None) =
     (\<forall>e\<in>set es. fst e \<notin> {''PERSON'', ''GPE'', ''LOC'', ''ORG''})"
  by (induction es rule: first_named_entity.induct) auto

text \<open>
  C8: when the matcher finds nothing in the utterance and no entity of the utterance is
  labelled PERSON, GPE, LOC or ORG, analyze_utterance returns the fixed request to
  rephrase and leaves the dict of next responses as it was.
\<close>

theorem analyze_utterance_default:
  assumes "matcher sp (nlp sp utterance) = []"
    and "\<forall>ent\<in>set (ents sp (nlp sp utterance)). fst ent \<notin> {''PERSON'', ''GPE'', ''LOC'', ''ORG''}"
  shows "analyze_utterance sp last_response utterance =
           (Inr ''Can you please rephrase your question or ask about something else?'',
            last_response)"
proof -
  from assms(2) have "first_named_entity (ents sp (nlp sp utterance)) = None"
    by (simp only: first_named_entity_None)
  with assms(1) show ?thesis
    by (simp add: analyze_utterance_def default_response_def)
qed

theorem analyze_utterance_default_witness:
  "analyze_utterance
     \<lparr>nlp = \<lambda>u. u, matcher = \<lambda>d. [], vocab_strings = \<lambda>n. [], span_text = \<lambda>d a b. [],
      ents = \<lambda>d. [(''DATE'', ''today'')]\<rparr>
     [''PLACE'' \<mapsto> 1] ''what about today''
   = (Inr ''Can you please rephrase your question or ask about something else?'',
      [''PLACE'' \<mapsto> 1])"
  using analyze_utterance_default
    [of "\<lparr>nlp = \<lambda>u. u, matcher = \<lambda>d. [], vocab_strings = \<lambda>n. [], span_text = \<lambda>d a b. [],
          ents = \<lambda>d. [(''DATE'', ''today'')]\<rparr>" "''what about today''" "[''PLACE'' \<mapsto> 1]"]
  by simp

text \<open>
  C3: for an intent other than -1, generate returns \<open>answers[intent]\<close>, which for an
  index into the answers is the answer stored there, and nothing else of the arguments
  is read; for the intent -1 it returns what analyze_utterance returns on the utterance
  it was given.
\<close>

theorem generate_dispatch:
  "(intent \<noteq> - 1 \<longrightarrow>
      generate sp last_response intent questions answers utterance =
        (py_index answers intent, last_response)) \<and>
   (0 \<le> intent \<and> intent < int (length answers) \<longrightarrow>
      generate sp last_response intent questions answers utterance =
        (Inr (answers ! nat intent), last_response)) \<and>
   generate sp last_response (- 1) questions answers utterance =
     analyze_utterance sp last_response utterance"
  by (auto simp: generate_def py_index_def)

theorem generate_dispatch_witness:
  "generate
     \<lparr>nlp = \<lambda>u. u, matcher = \<lambda>d. [], vocab_strings = \<lambda>n. [], span_text = \<lambda>d a b. [],
      ents = \<lambda>d. []\<rparr>
     Map.empty 1 [''q0'', ''q1''] [''a0'', ''a1''] ''Q1?'' = (Inr ''a1'', Map.empty)"
  using generate_dispatch
    [of 1 "\<lparr>nlp = \<lambda>u. u, matcher = \<lambda>d. [], vocab_strings = \<lambda>n. [], span_text = \<lambda>d a b. [],
      ents = \<lambda>d. []\<rparr>" Map.empty "[''q0'', ''q1'']" "[''a0'', ''a1'']" "''Q1?''"]
  by (simp add: py_index_def)

lemma get_response_ok:
  assumes "alternation_ok st"
  shows "\<exists>response st'. get_response st l t = (Inr response, st') \<and> alternation_ok st'"
proof -
  obtain v0 v1 where v: "responses_get l t = Inr [v0, v1]"
    using responses_get_two by blast
  from assms have idx: "next_index st l = 0 \<or> next_index st l = 1"
    by (auto simp: alternation_ok_def next_index_def split: option.splits)
  then have "alternation_ok (st(l \<mapsto> (next_index st l + 1) mod 2))"
    using assms by (auto simp: alternation_ok_def)
  with get_response_hit [OF v idx] show ?thesis by simp
qed

lemma analyze_utterance_ok:
  assumes "alternation_ok st"
  shows "\<exists>response st'. analyze_utterance sp st u = (Inr response, st') \<and> alternation_ok st'"
  using assms get_response_ok [OF assms]
  by (simp add: analyze_utterance_def Let_def split: list.splits option.splits prod.splits)

text \<open>
  C4, as claimed, fails: with two patterns and one answer, an utterance that the second
  pattern matches makes generate raise IndexError.
\<close>

theorem understand_then_generate_index_error:
  "fst (understand_then_generate (\<lambda>p u. Inr (if p = u then Some (0, 0, 0) else None))
     \<lparr>nlp = \<lambda>u. u, matcher = \<lambda>d. [], vocab_strings = \<lambda>n. [], span_text = \<lambda>d a b. [],
      ents = \<lambda>d. []\<rparr>
     Map.empty [''hi'', ''bye''] [''q0''] [''a0''] ''bye'') = Inl IndexError"
  by (simp add: understand_then_generate_def understand_def total_errors_def generate_def
      py_index_def)

text \<open>
  C4, amended: when every pattern compiles and the dict of next responses holds only 0
  and 1, understand returns an intent, and understand followed by generate returns a
  response and no exception exactly when that intent is -1 or below the number of
  answers (the dict then still holds only 0 and 1), which is so whenever the answers are
  at least as many as the patterns; for any other intent it raises IndexError and leaves
  the dict as it was.
\<close>

theorem understand_then_generate_responds:
  assumes compiles: "\<forall>p\<in>set regex_list. \<exists>m. search p utterance = Inr m"
    and ok: "alternation_ok last_response"
  shows "\<exists>intent. understand search utterance regex_list = Inr intent \<and>
           (length regex_list \<le> length answers \<longrightarrow> intent < int (length answers)) \<and>
           (if intent < int (length answers)
            then \<exists>response last_response'.
                   understand_then_generate search sp last_response regex_list questions answers
                     utterance = (Inr response, last_response') \<and>
                   alternation_ok last_response'
            else understand_then_generate search sp last_response regex_list questions answers
                   utterance = (Inl IndexError, last_response))"
proof -
  from understand_loop_total [of regex_list search utterance 0 "- 1" \<infinity>] compiles
  obtain r where r: "understand search utterance regex_list = Inr r"
    unfolding understand_def by blast
  then have "understand_loop search utterance (List.enumerate 0 regex_list) (- 1) \<infinity> = Inr r"
    by (simp add: understand_def)
  from understand_loop_result [OF this]
  have range: "r = - 1 \<or> (0 \<le> r \<and> r < int (length regex_list))"
    by (auto simp: best_at_def)
  then have bound: "length regex_list \<le> length answers \<longrightarrow> r < int (length answers)"
    by auto
  have "if r < int (length answers)
        then \<exists>response last_response'.
               understand_then_generate search sp last_response regex_list questions answers
                 utterance = (Inr response, last_response') \<and>
               alternation_ok last_response'
        else understand_then_generate search sp last_response regex_list questions answers
               utterance = (Inl IndexError, last_response)"
  proof (cases "r = - 1")
    case True
    then have "r < int (length answers)" by simp
    with True r analyze_utterance_ok [OF ok, of sp utterance] show ?thesis
      by (simp add: understand_then_generate_def generate_def)
  next
    case False
    with range have "0 \<le> r" by simp
    with False r ok show ?thesis
      by (simp add: understand_then_generate_def generate_def py_index_def)
  qed
  with r bound show ?thesis by blast
qed

theorem understand_then_generate_responds_witness:
  "understand_then_generate (\<lambda>p u. Inr (if p = u then Some (0, 0, 0) else None))
     \<lparr>nlp = \<lambda>u. u, matcher = \<lambda>d. [], vocab_strings = \<lambda>n. [], span_text = \<lambda>d a b. [],
      ents = \<lambda>d. []\<rparr>
     Map.empty [''hi'', ''bye''] [''q0''] [''a0''] ''hi''
   = (Inr ''a0'', Map.empty) \<and> alternation_ok Map.empty \<and>
   understand_then_generate (\<lambda>p u. Inr (if p = u then Some (0, 0, 0) else None))
     \<lparr>nlp = \<lambda>u. u, matcher = \<lambda>d. [], vocab_strings = \<lambda>n. [], span_text = \<lambda>d a b. [],
      ents = \<lambda>d. []\<rparr>
     Map.empty [''hi'', ''bye''] [''q0''] [''a0''] ''bye''
   = (Inl IndexError, Map.empty)"
  using understand_then_generate_responds
    [of "[''hi'', ''bye'']" "\<lambda>p u. Inr (if p = u then Some (0, 0, 0) else None)" "''hi''"
        Map.empty "[''a0'']"
        "\<lparr>nlp = \<lambda>u. u, matcher = \<lambda>d. [], vocab_strings = \<lambda>n. [], span_text = \<lambda>d a b. [],
          ents = \<lambda>d. []\<rparr>" "[''q0'']"]
    understand_then_generate_responds
    [of "[''hi'', ''bye'']" "\<lambda>p u. Inr (if p = u then Some (0, 0, 0) else None)" "''bye''"
        Map.empty "[''a0'']"
        "\<lparr>nlp = \<lambda>u. u, matcher = \<lambda>d. [], vocab_strings = \<lambda>n. [], span_text = \<lambda>d a b. [],
          ents = \<lambda>d. []\<rparr>" "[''q0'']"]
  by (simp add: understand_then_generate_def understand_def total_errors_def generate_def
      py_index_def alternation_ok_def)

section \<open>Properties of sanitize_text\<close>

lemma char_eq_code: "(c = d) = ((of_char c :: nat) = of_char d)"
  by simp

lemma punctuation_code:
  "(c \<in> set punctuation) =
     (let n = (of_char c :: nat)
      in (33 \<le> n \<and> n \<le> 47) \<or> (58 \<le> n \<and> n \<le> 64) \<or> (91 \<le> n \<and> n \<le> 96) \<or>
         (123 \<le> n \<and> n \<le> 126))"
  unfolding punctuation_def Let_def
  by (simp add: char_eq_code [of c]) arith

lemma lower_char_code:
  "(of_char (lower_char c) :: nat) = (if isupper c then of_char c + 32 else of_char c)"
proof -
  have "(of_char c :: nat) < 256" by simp
  then show ?thesis
    by (auto simp: lower_char_def isupper_def Let_def)
qed

lemma isspace_lower_char [simp]: "isspace (lower_char c) = isspace c"
  unfolding isspace_def Let_def lower_char_code
  by (auto simp: isupper_def Let_def)

lemma isupper_lower_char [simp]: "\<not> isupper (lower_char c)"
  unfolding isupper_def [of "lower_char c"] Let_def lower_char_code
  by (auto simp: isupper_def Let_def)

lemma lower_char_idem [simp]: "lower_char (lower_char c) = lower_char c"
  by (simp add: lower_char_def [of "lower_char c"])

lemma punctuation_lower_char [simp]:
  "(lower_char c \<in> set punctuation) = (c \<in> set punctuation)"
  unfolding punctuation_code Let_def lower_char_code
  by (auto simp: isupper_def Let_def)

lemma space_facts [simp]:
  "isspace (CHR '' '')" "CHR '' '' \<notin> set punctuation" "lower_char (CHR '' '') = CHR '' ''"
  "\<not> isupper (CHR '' '')"
  by (simp_all add: isspace_def punctuation_def lower_char_def isupper_def)


lemma str_split_Nil [simp]: "str_split [] = []"
  by (simp add: str_split.simps)

lemma str_split_space [simp]: "isspace c \<Longrightarrow> str_split (c # s) = str_split s"
  by (simp add: str_split.simps [of "c # s"] str_split.simps [of s])

lemma str_split_word_append:
  assumes "word w"
  shows "str_split (w @ CHR '' '' # rest) = w # str_split rest"
proof -
  from assms obtain c cs where w: "w = c # cs" by (auto simp: word_def neq_Nil_conv)
  with assms have c: "\<not> isspace c" and cs: "\<forall>d\<in>set cs. \<not> isspace d"
    by (simp_all add: word_def)
  show ?thesis
    by (subst str_split.simps) (simp add: w c cs takeWhile_append2 dropWhile_append2)
qed

lemma str_split_word:
  assumes "word w"
  shows "str_split w = [w]"
proof -
  from assms obtain c cs where w: "w = c # cs" by (auto simp: word_def neq_Nil_conv)
  with assms have c: "\<not> isspace c" and cs: "\<forall>d\<in>set cs. \<not> isspace d"
    by (simp_all add: word_def)
  from cs have rest: "dropWhile (\<lambda>d. \<not> isspace d) cs = []" by simp
  show ?thesis
    by (subst str_split.simps) (simp add: w c cs rest)
qed

lemma str_split_join:
  "\<forall>w\<in>set ws. word w \<Longrightarrow> str_split (str_join '' '' ws) = ws"
  by (induction "'' ''" ws rule: str_join.induct)
     (simp_all add: str_split_word str_split_word_append)

lemma str_split_words:
  "w \<in> set (str_split s) \<Longrightarrow> word w \<and> set w \<subseteq> set s"
proof (induction s rule: str_split.induct)
  case (1 s)
  show ?case
  proof (cases "dropWhile isspace s")
    case Nil
    with "1.prems" show ?thesis by (simp add: str_split.simps [of s])
  next
    case (Cons c cs)
    have c: "\<not> isspace c"
      using hd_dropWhile [of isspace s] Cons by simp
    have sub: "set (c # cs) \<subseteq> set s"
      using set_dropWhileD [of _ isspace s] Cons by auto
    from "1.prems" Cons
    have "w = c # takeWhile (\<lambda>d. \<not> isspace d) cs \<or>
          w \<in> set (str_split (dropWhile (\<lambda>d. \<not> isspace d) cs))"
      by (simp add: str_split.simps [of s])
    then show ?thesis
    proof
      assume w: "w = c # takeWhile (\<lambda>d. \<not> isspace d) cs"
      have "\<forall>d\<in>set (takeWhile (\<lambda>d. \<not> isspace d) cs). \<not> isspace d"
        by (auto dest: set_takeWhileD)
      moreover have "set (takeWhile (\<lambda>d. \<not> isspace d) cs) \<subseteq> set cs"
        by (auto dest: set_takeWhileD)
      ultimately show ?thesis using w c sub by (auto simp: word_def)
    next
      assume "w \<in> set (str_split (dropWhile (\<lambda>d. \<not> isspace d) cs))"
      from "1.IH" [OF Cons this]
      have "word w \<and> set w \<subseteq> set (dropWhile (\<lambda>d. \<not> isspace d) cs)" .
      moreover have "set (dropWhile (\<lambda>d. \<not> isspace d) cs) \<subseteq> set cs"
        by (auto dest: set_dropWhileD)
      ultimately show ?thesis using sub by auto
    qed
  qed
qed

lemma str_lower_join:
  "str_lower (str_join sep ws) = str_join (str_lower sep) (map str_lower ws)"
  by (induction sep ws rule: str_join.induct) (simp_all add: str_lower_def)

lemma set_str_join:
  "set (str_join sep ws) \<subseteq> set sep \<union> \<Union> (set ` set ws)"
  by (induction sep ws rule: str_join.induct) auto

lemma word_str_lower: "word w \<Longrightarrow> word (str_lower w)"
  by (simp add: word_def str_lower_def)


lemma str_lower_space [simp]: "str_lower '' '' = '' ''"
  by (simp add: str_lower_def)

lemma sanitize_text_join:
  "\<exists>ws. sanitize_text text = str_join '' '' ws \<and> (\<forall>w\<in>set ws. word w \<and> plain w)"
proof -
  let ?t = "str_translate_delete punctuation text"
  let ?ws = "map str_lower (str_split ?t)"
  have "sanitize_text text = str_join '' '' ?ws"
    by (simp add: sanitize_text_def str_lower_join)
  moreover have "\<forall>w\<in>set ?ws. word w \<and> plain w"
  proof
    fix w assume "w \<in> set ?ws"
    then obtain v where v: "v \<in> set (str_split ?t)" "w = str_lower v" by auto
    from str_split_words [OF v(1)] have "word v" "set v \<subseteq> set ?t" by simp_all
    then have "word w" "\<forall>c\<in>set v. c \<notin> set punctuation"
      by (auto simp: v(2) word_str_lower str_translate_delete_def)
    then show "word w \<and> plain w"
      by (simp add: plain_def v(2) str_lower_def)
  qed
  ultimately show ?thesis by blast
qed

lemma sanitize_text_fixed:
  assumes "\<forall>w\<in>set ws. word w \<and> plain w"
  shows "sanitize_text (str_join '' '' ws) = str_join '' '' ws"
proof -
  let ?y = "str_join '' '' ws"
  have chars: "\<forall>c\<in>set ?y. c \<notin> set punctuation \<and> \<not> isupper c"
  proof
    fix c assume "c \<in> set ?y"
    with set_str_join [of "'' ''" ws] have "c = CHR '' '' \<or> (\<exists>w\<in>set ws. c \<in> set w)"
      by auto
    with assms show "c \<notin> set punctuation \<and> \<not> isupper c"
      by (auto simp: plain_def)
  qed
  then have "str_translate_delete punctuation ?y = ?y"
    by (simp add: str_translate_delete_def)
  moreover from assms have "str_split ?y = ws"
    by (simp add: str_split_join)
  moreover from chars have "str_lower ?y = ?y"
    by (simp add: str_lower_def lower_char_def map_idI)
  ultimately show ?thesis by (simp add: sanitize_text_def)
qed

text \<open>
  C6: sanitize_text is idempotent.
\<close>

theorem sanitize_text_idempotent:
  "sanitize_text (sanitize_text x) = sanitize_text x"
proof -
  obtain ws where "sanitize_text x = str_join '' '' ws" "\<forall>w\<in>set ws. word w \<and> plain w"
    using sanitize_text_join by blast
  then show ?thesis by (simp add: sanitize_text_fixed)
qed








section \<open>Properties of the loaders\<close>

lemma concat_readlines_from: "concat (readlines_from line s) = line @ s"
  by (induction s arbitrary: line) simp_all

lemma readlines_from_lines:
  "LF \<notin> set line \<Longrightarrow>
   \<forall>l\<in>set (readlines_from line s). l \<noteq> [] \<and> LF \<notin> set (butlast l)"
proof (induction s arbitrary: line)
  case Nil
  then have "LF \<notin> set (butlast line)" by (auto dest: in_set_butlastD)
  then show ?case by simp
next
  case (Cons c s)
  show ?case
  proof (cases "c = LF")
    case True
    from Cons.IH [of "[]"] have "\<forall>l\<in>set (readlines_from [] s). l \<noteq> [] \<and> LF \<notin> set (butlast l)"
      by simp
    with True Cons.prems show ?thesis by simp
  next
    case False
    with Cons.prems have "LF \<notin> set (line @ [c])" by simp
    from Cons.IH [OF this] False show ?thesis by simp
  qed
qed

lemma readlines_from_ends:
  "l \<in> set (butlast (readlines_from line s)) \<Longrightarrow> last l = LF"
  by (induction s arbitrary: line) (auto split: if_splits)

lemma stripped_str_strip: "stripped l (str_strip l)"
proof -
  let ?rest = "dropWhile isspace l"
  let ?entry = "rev (dropWhile isspace (rev ?rest))"
  let ?post = "rev (takeWhile isspace (rev ?rest))"
  have rest: "?rest = ?entry @ ?post"
    by (metis rev_append rev_rev_ident takeWhile_dropWhile_id)
  have l: "l = takeWhile isspace l @ ?entry @ ?post"
    using rest by (metis takeWhile_dropWhile_id)
  have pre: "\<forall>c\<in>set (takeWhile isspace l). isspace c" by (auto dest: set_takeWhileD)
  have post: "\<forall>c\<in>set ?post. isspace c" by (auto dest: set_takeWhileD)
  have "trimmed ?entry"
  proof (cases "?entry = []")
    case True
    then show ?thesis by (simp add: trimmed_def)
  next
    case False
    then have ne: "dropWhile isspace (rev ?rest) \<noteq> []" by simp
    then have "\<not> isspace (hd (dropWhile isspace (rev ?rest)))" by (rule hd_dropWhile)
    with ne have lst: "\<not> isspace (last ?entry)" by (simp add: last_rev)
    from False rest have "hd ?entry = hd ?rest" by (metis hd_append2)
    moreover from False rest have "?rest \<noteq> []" by (metis append_is_Nil_conv)
    then have "\<not> isspace (hd ?rest)" by (rule hd_dropWhile)
    ultimately show ?thesis using lst by (simp add: trimmed_def)
  qed
  with l pre post show ?thesis
    unfolding stripped_def str_strip_def by blast
qed

lemma one_entry_per_line_readlines:
  "one_entry_per_line text (map str_strip (readlines text))"
  unfolding one_entry_per_line_def
proof (intro exI [of _ "readlines text"] conjI)
  show "concat (readlines text) = text"
    by (simp add: readlines_def concat_readlines_from)
  show "\<forall>l\<in>set (readlines text). l \<noteq> [] \<and> LF \<notin> set (butlast l)"
    using readlines_from_lines [of "[]" "text"] by (simp add: readlines_def)
  show "\<forall>l\<in>set (butlast (readlines text)). last l = LF"
    using readlines_from_ends by (simp add: readlines_def)
  show "length (map str_strip (readlines text)) = length (readlines text)" by simp
  show "\<forall>i<length (readlines text).
          stripped (readlines text ! i) (map str_strip (readlines text) ! i)"
    by (simp add: stripped_str_strip)
qed

text \<open>
  C5, as claimed, fails: a blank line is not ignored, it gives an empty entry. Three
  lines of which two are not empty give three entries.
\<close>

theorem loaders_keep_blank_lines:
  "load_fuzzy_regex_patterns [''regex.txt'' \<mapsto> ''hi'' @ [LF, LF] @ ''bye'' @ [LF]]
     = Inr [''hi'', [], ''bye''] \<and>
   load_FAQ_data [''questions.txt'' \<mapsto> ''q1'' @ [LF, LF] @ ''q2'' @ [LF],
                  ''answers.txt'' \<mapsto> ''a1'' @ [LF] @ ''  '' @ [LF] @ ''a2'']
     = Inr ([''q1'', [], ''q2''], [''a1'', [], ''a2''])"
  by (simp add: load_fuzzy_regex_patterns_def load_FAQ_data_def open_read_def readlines_def
      str_strip_def isspace_def)

text \<open>
  C5, amended: when the three files are there, each loader returns one entry for each
  line of its file, a blank line too, in the order of the lines, each entry being its
  line without the whitespace at both ends.
\<close>

theorem loaders_one_entry_per_line:
  assumes "fs ''questions.txt'' = Some q" and "fs ''answers.txt'' = Some a"
    and "fs ''regex.txt'' = Some r"
  shows "\<exists>questions answers patterns.
           load_FAQ_data fs = Inr (questions, answers) \<and>
           load_fuzzy_regex_patterns fs = Inr patterns \<and>
           one_entry_per_line (universal_newlines q) questions \<and>
           one_entry_per_line (universal_newlines a) answers \<and>
           one_entry_per_line (universal_newlines r) patterns"
  using assms
  by (simp add: load_FAQ_data_def load_fuzzy_regex_patterns_def open_read_def
      one_entry_per_line_readlines)

theorem loaders_one_entry_per_line_witness:
  "load_fuzzy_regex_patterns
     [''questions.txt'' \<mapsto> ''q1'' @ [LF, LF] @ ''q2'' @ [LF],
      ''answers.txt'' \<mapsto> ''a1'' @ [LF] @ ''  '' @ [LF] @ ''a2'',
      ''regex.txt'' \<mapsto> '' hi '' @ [CR, LF, LF] @ ''bye'']
     = Inr [''hi'', [], ''bye''] \<and>
   one_entry_per_line ('' hi '' @ [LF, LF] @ ''bye'') [''hi'', [], ''bye'']"
  using loaders_one_entry_per_line
    [of "[''questions.txt'' \<mapsto> ''q1'' @ [LF, LF] @ ''q2'' @ [LF],
          ''answers.txt'' \<mapsto> ''a1'' @ [LF] @ ''  '' @ [LF] @ ''a2'',
          ''regex.txt'' \<mapsto> '' hi '' @ [CR, LF, LF] @ ''bye'']"
        "''q1'' @ [LF, LF] @ ''q2'' @ [LF]" "''a1'' @ [LF] @ ''  '' @ [LF] @ ''a2''"
        "'' hi '' @ [CR, LF, LF] @ ''bye''"]
  by (simp add: load_fuzzy_regex_patterns_def load_FAQ_data_def open_read_def readlines_def
      str_strip_def isspace_def)

end
